theory Spec2Isabelle
  imports Main
begin

section \<open>Data\<close>

text \<open>
  A history item is a JavaScript object. The store reads its \<open>sequenceNumber\<close> (a number:
  \<open>sequenceNumber - 1\<close> of 0 is -1, hence \<open>int\<close>) and its \<open>actionName\<close>; the rest of the
  object is \<open>payload\<close>. The store never changes an item.
\<close>

record entry =
  sequenceNumber :: int
  actionName :: string
  payload :: string

text \<open>
  Histories are JavaScript arrays: \<open>unshift\<close> and \<open>reverse\<close> change them in place, and
  \<open>this.cache[reportID] = reportHistory\<close> shares the array. So the state is a heap of
  arrays by address (\<open>fresh\<close> is the next unused address), the object \<open>this.cache\<close> from
  report ID to the address of an array, and the requests sent to the API so far.
\<close>

type_synonym addr = nat

record request =
  reportID :: nat
  offset :: "int option"

record store =
  arrays :: "addr \<Rightarrow> entry list"
  fresh :: addr
  cache :: "nat \<Rightarrow> addr option"
  calls :: "request list"

text \<open>
  \<open>API.Report_GetHistory\<close> is handed to the constructor: a parameter. Its answer may depend
  on the number of requests sent before. The \<open>done\<close> callbacks of its deferred run only
  when the request succeeds. A \<open>Deferred\<close> of the store is pending until resolved; the
  store never rejects one. A call of \<open>get\<close> or \<open>set\<close> is followed to the end of its
  callbacks, the answers of the API arriving before any other call starts.
\<close>

datatype response = Failed | Succeeded "entry list"

type_synonym API = "nat \<Rightarrow> request \<Rightarrow> response"

datatype 'a deferred = Pending | Resolved 'a | Rejected

datatype error = TypeError

text \<open>The requests \<open>{reportID}\<close> and \<open>{reportID, offset}\<close>.\<close>

abbreviation req_all :: "nat \<Rightarrow> request" where
  "req_all rid \<equiv> \<lparr>reportID = rid, offset = None\<rparr>"

abbreviation req_after :: "nat \<Rightarrow> int \<Rightarrow> request" where
  "req_after rid n \<equiv> \<lparr>reportID = rid, offset = Some n\<rparr>"

text \<open>
  The elementary changes of state: a request is sent; it is sent and answered with a new
  array; the array at an address gets new contents; \<open>this.cache[rid]\<close> is assigned.
\<close>

abbreviation sent :: "request \<Rightarrow> store \<Rightarrow> store" where
  "sent req s \<equiv> s\<lparr>calls := calls s @ [req]\<rparr>"

abbreviation answered :: "request \<Rightarrow> entry list \<Rightarrow> store \<Rightarrow> store" where
  "answered req h s \<equiv>
     s\<lparr>calls := calls s @ [req], arrays := (arrays s)(fresh s := h), fresh := Suc (fresh s)\<rparr>"

abbreviation put :: "addr \<Rightarrow> entry list \<Rightarrow> store \<Rightarrow> store" where
  "put a xs s \<equiv> s\<lparr>arrays := (arrays s)(a := xs)\<rparr>"

abbreviation assign :: "nat \<Rightarrow> addr \<Rightarrow> store \<Rightarrow> store" where
  "assign rid a s \<equiv> s\<lparr>cache := (cache s)(rid \<mapsto> a)\<rparr>"

text \<open>The contents of a value that is an array or \<open>undefined\<close> (empty for underscore).\<close>

definition deref :: "store \<Rightarrow> addr option \<Rightarrow> entry list" where
  "deref s v = (case v of None \<Rightarrow> [] | Some a \<Rightarrow> arrays s a)"

section \<open>The store (lib/ReportHistoryStore.jsx)\<close>

text \<open>Lines 8 to 15 and 35: the hidden actions and the filter.\<close>

definition HIDDEN_ACTIONS :: "string list" where
  "HIDDEN_ACTIONS =
     [''BILLABLEUPDATETRANSACTION'', ''BILLABLEDELEGATE'', ''QUEUEDFOREXPORT'',
      ''REIMBURSEMENTACHBOUNCEFASTDEBIT'', ''REIMBURSEMENTRETRYDEBIT'', ''DIGITALSIGNATURE'']"

text \<open>
  Modelled from the spec: \<open>Str.startsWith\<close> of \<open>lib/str\<close>, which is not among the sources;
  the spec excludes a label that "begins with" the reserved prefix.
\<close>

definition startsWith :: "string \<Rightarrow> string \<Rightarrow> bool" where
  "startsWith haystack needle = (take (length needle) haystack = needle)"

definition contains :: "string list \<Rightarrow> string \<Rightarrow> bool" where
  "contains xs x = (x \<in> set xs)"

definition filterHiddenActions :: "entry list \<Rightarrow> entry list" where
  "filterHiddenActions historyItems =
     filter (\<lambda>historyItem. \<not> contains HIDDEN_ACTIONS (actionName historyItem)
                            \<and> \<not> startsWith (actionName historyItem) ''CC'') historyItems"

text \<open>\<open>_.findWhere(list, {sequenceNumber: n})\<close>: the first item with that number, if any.\<close>

definition findWhere :: "entry list \<Rightarrow> int \<Rightarrow> entry option" where
  "findWhere xs n = find (\<lambda>h. sequenceNumber h = n) xs"

text \<open>
  One request to the API. \<open>None\<close>: it failed, no \<open>done\<close> callback runs. \<open>Some a\<close>: it
  succeeded, and the answer is the new array at \<open>a\<close>.
\<close>

definition Report_GetHistory :: "API \<Rightarrow> request \<Rightarrow> store \<Rightarrow> addr option \<times> store" where
  "Report_GetHistory api req s =
     (case api (length (calls s)) req of
        Failed \<Rightarrow> (None, sent req s)
      | Succeeded h \<Rightarrow> (Some (fresh s), answered req h s))"

text \<open>Lines 105 to 110.\<close>

definition fetchAll :: "API \<Rightarrow> nat \<Rightarrow> store \<Rightarrow> addr option \<times> store" where
  "fetchAll api rid s =
     (case Report_GetHistory api (req_all rid) s of
        (None, s1) \<Rightarrow> (None, s1)
      | (Some reportHistory, s1) \<Rightarrow> (Some reportHistory, assign rid reportHistory s1))"

text \<open>
  Lines 123 to 128, the callback of \<open>_.reduce\<close>: the contents it leaves in the array
  \<open>prev\<close>, which it changes in place and returns.
\<close>

definition reducer :: "entry list \<Rightarrow> entry \<Rightarrow> entry list" where
  "reducer prev cur =
     (if findWhere prev (sequenceNumber cur) = None then cur # prev else prev)"

text \<open>
  The loop of \<open>_.reduce\<close> over the array at \<open>d\<close> with the accumulator array at \<open>prev\<close>:
  index \<open>i\<close>, \<open>k\<close> rounds to go; each round reads the element from the array as it is then.
\<close>

fun reduce_from :: "addr \<Rightarrow> addr \<Rightarrow> nat \<Rightarrow> nat \<Rightarrow> store \<Rightarrow> store" where
  "reduce_from prev d i 0 s = s"
| "reduce_from prev d i (Suc k) s =
     reduce_from prev d (Suc i) k (put prev (reducer (arrays s prev) (arrays s d ! i)) s)"

text \<open>
  Lines 118 to 129, \<open>newHistory\<close> being the array at \<open>d\<close>. \<open>reverse\<close> works in place.
  With no cache for the report the accumulator is \<open>undefined\<close>: in the first round
  \<open>_.findWhere(undefined, ...)\<close> finds nothing and \<open>prev.unshift\<close> raises a TypeError.
\<close>

definition mergeItems :: "nat \<Rightarrow> addr \<Rightarrow> store \<Rightarrow> (error + unit) \<times> store" where
  "mergeItems rid d s =
     (if length (arrays s d) = 0 then (Inr (), s)
      else
        let s1 = put d (rev (arrays s d)) s in
        case cache s1 rid of
          None \<Rightarrow> (Inl TypeError, s1)
        | Some prev \<Rightarrow>
            (Inr (), assign rid prev (reduce_from prev d 0 (length (arrays s1 d)) s1)))"

text \<open>
  Lines 139 to 167, the method \<open>get\<close> of the class: the state of the deferred it returns
  (resolved with an array or \<open>undefined\<close>), or the exception that escapes.
\<close>

definition get :: "API \<Rightarrow> nat \<Rightarrow> store \<Rightarrow> (error + addr option deferred) \<times> store" where
  "get api rid s =
     (let cachedHistory = deref s (cache s rid) in
      if cachedHistory = [] then
        (case fetchAll api rid s of
           (None, s1) \<Rightarrow> (Inr Pending, s1)
         | (Some a, s1) \<Rightarrow> (Inr (Resolved (Some a)), s1))
      else
        let first = sequenceNumber (hd cachedHistory) in
        case Report_GetHistory api (req_after rid (if first = 0 then 0 else first)) s of
          (None, s1) \<Rightarrow> (Inr Pending, s1)
        | (Some recentHistory, s1) \<Rightarrow>
            (case mergeItems rid recentHistory s1 of
               (Inl e, s2) \<Rightarrow> (Inl e, s2)
             | (Inr _, s2) \<Rightarrow> (Inr (Resolved (cache s2 rid)), s2)))"

text \<open>Lines 176 to 189.\<close>

definition getFromCacheFirst :: "API \<Rightarrow> nat \<Rightarrow> store \<Rightarrow> addr option deferred \<times> store" where
  "getFromCacheFirst api rid s =
     (if deref s (cache s rid) = [] then
        (case fetchAll api rid s of
           (None, s1) \<Rightarrow> (Pending, s1)
         | (Some a, s1) \<Rightarrow> (Resolved (Some a), s1))
      else (Resolved (cache s rid), s))"

text \<open>
  Lines 48 to 55 and 65 to 91, the public \<open>get\<close> and \<open>set\<close>. Their deferred resolves with
  a new, filtered array, given by its contents.
\<close>

definition get_public :: "API \<Rightarrow> nat \<Rightarrow> store \<Rightarrow> (error + entry list deferred) \<times> store" where
  "get_public api rid s =
     (case get api rid s of
        (Inl e, s1) \<Rightarrow> (Inl e, s1)
      | (Inr (Resolved reportHistory), s1) \<Rightarrow>
          (Inr (Resolved (filterHiddenActions (deref s1 reportHistory))), s1)
      | (Inr _, s1) \<Rightarrow> (Inr Pending, s1))"

definition set_public ::
  "API \<Rightarrow> nat \<Rightarrow> entry \<Rightarrow> store \<Rightarrow> (error + entry list deferred) \<times> store" where
  "set_public api rid reportAction s =
     (case getFromCacheFirst api rid s of
        (Resolved cachedHistory, s1) \<Rightarrow>
          if findWhere (deref s1 cachedHistory) (sequenceNumber reportAction) \<noteq> None
          then (Inr (Resolved (filterHiddenActions (deref s1 cachedHistory))), s1)
          else if findWhere (deref s1 cachedHistory) (sequenceNumber reportAction - 1) \<noteq> None
          then
            (case cache s1 rid of
               None \<Rightarrow> (Inl TypeError, s1)
             | Some a \<Rightarrow>
                 let s2 = put a (reportAction # arrays s1 a) s1
                 in (Inr (Resolved (filterHiddenActions (deref s2 (cache s2 rid)))), s2))
          else
            (case get api rid s1 of
               (Inl e, s2) \<Rightarrow> (Inl e, s2)
             | (Inr (Resolved reportHistory), s2) \<Rightarrow>
                 (Inr (Resolved (filterHiddenActions (deref s2 reportHistory))), s2)
             | (Inr _, s2) \<Rightarrow> (Inr Pending, s2))
      | (_, s1) \<Rightarrow> (Inr Pending, s1))"

section \<open>Vocabulary of the properties\<close>

definition seqs :: "entry list \<Rightarrow> int list" where
  "seqs xs = map sequenceNumber xs"

text \<open>Newest first: strictly decreasing sequence numbers, so none occurs twice.\<close>

definition newest_first :: "entry list \<Rightarrow> bool" where
  "newest_first xs = sorted_wrt (\<lambda>x y. sequenceNumber y < sequenceNumber x) xs"

text \<open>The cached history of a report, empty when there is none.\<close>

definition cached :: "store \<Rightarrow> nat \<Rightarrow> entry list" where
  "cached s rid = deref s (cache s rid)"

text \<open>
  The cache invariant: every array in \<open>this.cache\<close> is newest first (and is an array that
  exists, so that a new array is none of them).
\<close>

definition cache_inv :: "store \<Rightarrow> bool" where
  "cache_inv s = (\<forall>rid a. cache s rid = Some a \<longrightarrow> a < fresh s \<and> newest_first (arrays s a))"

text \<open>
  The contract of the source: every answer is newest first, and the answer to a request
  with an offset holds no entry older than the offset (so in particular when all its
  entries are newer than the offset).
\<close>

definition honours_contract :: "API \<Rightarrow> bool" where
  "honours_contract api =
     (\<forall>n req h. api n req = Succeeded h \<longrightarrow>
        newest_first h
        \<and> (\<forall>off. offset req = Some off \<longrightarrow> (\<forall>x\<in>set h. off \<le> sequenceNumber x)))"

text \<open>An entry that a history already holds by its number, or that is newer than all of it.\<close>

definition in_order :: "entry \<Rightarrow> entry list \<Rightarrow> bool" where
  "in_order e xs =
     (sequenceNumber e \<in> set (seqs xs) \<or> (\<forall>x\<in>set xs. sequenceNumber x < sequenceNumber e))"

text \<open>
  What the reduce of \<open>mergeItems\<close> leaves in the cache \<open>E\<close> for the batch \<open>D\<close> as
  delivered: reversed, then folded from the left, that is folded from the right.
\<close>

abbreviation merged :: "entry list \<Rightarrow> entry list \<Rightarrow> entry list" where
  "merged D E \<equiv> foldr (\<lambda>x acc. reducer acc x) D E"

text \<open>The request that \<open>get\<close> sends (lines 144 to 157).\<close>

definition get_request :: "store \<Rightarrow> nat \<Rightarrow> request" where
  "get_request s rid =
     (case cached s rid of [] \<Rightarrow> req_all rid | x # _ \<Rightarrow> req_after rid (sequenceNumber x))"

section \<open>Examples\<close>

definition action :: "int \<Rightarrow> string \<Rightarrow> entry" where
  "action n name = \<lparr>sequenceNumber = n, actionName = name, payload = ''''\<rparr>"

definition item :: "int \<Rightarrow> entry" where
  "item n = action n ''ADDCOMMENT''"

text \<open>The state the constructor leaves: \<open>this.cache = {}\<close>.\<close>

definition new_store :: store where
  "new_store = \<lparr>arrays = (\<lambda>_. []), fresh = 0, cache = Map.empty, calls = []\<rparr>"

text \<open>
  Report 7 is cached as the array \<open>E\<close> at address 0. In \<open>store_with\<close> there is a second
  array \<open>D\<close> at address 1, which is in no cache. Report 8 has no cache.
\<close>

definition store_of :: "entry list \<Rightarrow> store" where
  "store_of E = \<lparr>arrays = (\<lambda>_. [])(0 := E), fresh = 1, cache = [7 \<mapsto> 0], calls = []\<rparr>"

definition store_with :: "entry list \<Rightarrow> entry list \<Rightarrow> store" where
  "store_with E D =
     \<lparr>arrays = (\<lambda>_. [])(0 := E, 1 := D), fresh = 2, cache = [7 \<mapsto> 0], calls = []\<rparr>"

text \<open>A source that is down, and one that serves a log (newest first) as agreed.\<close>

definition api_down :: API where
  "api_down n req = Failed"

definition api_log :: "entry list \<Rightarrow> API" where
  "api_log log n req =
     Succeeded (case offset req of
                  None \<Rightarrow> log
                | Some off \<Rightarrow> filter (\<lambda>x. off < sequenceNumber x) log)"

text \<open>A source whose log holds the entries 8 down to 4.\<close>

definition source :: API where
  "source = api_log [item 8, item 7, item 6, item 5, item 4]"


section \<open>The merge\<close>

lemma seqs_simps [simp]:
  "seqs [] = []" "seqs (x # xs) = sequenceNumber x # seqs xs" "seqs (xs @ ys) = seqs xs @ seqs ys"
  by (simp_all add: seqs_def)

lemma findWhere_None: "findWhere xs n = None \<longleftrightarrow> n \<notin> set (seqs xs)"
  by (auto simp: findWhere_def seqs_def find_None_iff)

lemma reducer_seqs:
  "seqs (reducer acc x) =
     (if sequenceNumber x \<in> set (seqs acc) then seqs acc else sequenceNumber x # seqs acc)"
  by (simp add: reducer_def findWhere_None)

lemma reduce_from_apart:
  "prev \<noteq> d \<Longrightarrow> i + k \<le> length (arrays s d) \<Longrightarrow>
   reduce_from prev d i k s
     = put prev (foldl reducer (arrays s prev) (take k (drop i (arrays s d)))) s"
proof (induction k arbitrary: i s)
  case 0
  then show ?case by simp
next
  case (Suc k)
  then have "take (Suc k) (drop i (arrays s d)) = arrays s d ! i # take k (drop (Suc i) (arrays s d))"
    by (simp add: Cons_nth_drop_Suc [symmetric])
  with Suc.prems Suc.IH [of "Suc i" "put prev (reducer (arrays s prev) (arrays s d ! i)) s"]
  show ?case by (simp cong: if_cong)
qed

lemma reduce_from_alias: "i + k \<le> length (arrays s d) \<Longrightarrow> reduce_from d d i k s = s"
proof (induction k arbitrary: i)
  case 0
  then show ?case by simp
next
  case (Suc k)
  then have "sequenceNumber (arrays s d ! i) \<in> set (seqs (arrays s d))"
    by (simp add: seqs_def)
  then have "reducer (arrays s d) (arrays s d ! i) = arrays s d"
    by (simp add: reducer_def findWhere_None)
  with Suc show ?case by simp
qed

lemma mergeItems_apart:
  assumes "cache s rid = Some prev" and "prev \<noteq> d"
  shows "mergeItems rid d s
    = (Inr (), put prev (merged (arrays s d) (arrays s prev)) (put d (rev (arrays s d)) s))"
proof -
  have "(cache s)(rid \<mapsto> prev) = cache s" "arrays s d = [] \<Longrightarrow> (arrays s)(d := []) = arrays s"
    using assms(1) by (auto simp: map_upd_triv)
  with assms show ?thesis
    by (simp add: mergeItems_def Let_def reduce_from_apart foldr_conv_foldl)
qed

lemma mergeItems_alias:
  assumes "cache s rid = Some d" and "arrays s d \<noteq> []"
  shows "mergeItems rid d s = (Inr (), put d (rev (arrays s d)) s)"
proof -
  have "(cache s)(rid \<mapsto> d) = cache s" using assms(1) by (simp add: map_upd_triv)
  with assms show ?thesis by (simp add: mergeItems_def Let_def reduce_from_alias)
qed

lemma mergeItems_undefined:
  "cache s rid = None \<Longrightarrow> arrays s d \<noteq> [] \<Longrightarrow>
   mergeItems rid d s = (Inl TypeError, put d (rev (arrays s d)) s)"
  by (simp add: mergeItems_def Let_def)

lemma reduce_from_calls: "calls (reduce_from prev d i k s) = calls s"
  by (induction k arbitrary: i s) simp_all

lemma mergeItems_calls: "mergeItems rid d s = (m, s1) \<Longrightarrow> calls s1 = calls s"
  by (auto simp: mergeItems_def Let_def reduce_from_calls split: if_splits option.splits)

lemma merged_seqs: "set (seqs (merged D E)) = set (seqs D) \<union> set (seqs E)"
  by (induction D) (simp_all add: reducer_seqs insert_absorb)

lemma merged_distinct: "distinct (seqs E) \<Longrightarrow> distinct (seqs (merged D E))"
  by (induction D) (simp_all add: reducer_seqs)


lemma merged_filter:
  "distinct (seqs D) \<Longrightarrow> merged D E = filter (\<lambda>x. sequenceNumber x \<notin> set (seqs E)) D @ E"
proof (induction D)
  case Nil
  then show ?case by simp
next
  case (Cons x D)
  then have "sequenceNumber x \<notin> set (seqs (filter (\<lambda>x. sequenceNumber x \<notin> set (seqs E)) D))"
    by (auto simp: seqs_def)
  with Cons show ?case by (simp add: reducer_def findWhere_None)
qed

lemma newest_first_distinct: "newest_first xs \<Longrightarrow> distinct (seqs xs)"
  by (induction xs) (auto simp: newest_first_def seqs_def)

lemma newest_first_head:
  "newest_first (x # xs) \<Longrightarrow> y \<in> set (x # xs) \<Longrightarrow> sequenceNumber y \<le> sequenceNumber x"
  by (auto simp: newest_first_def)

lemma merged_sorted:
  assumes "newest_first D" and "newest_first E"
    and "\<forall>x\<in>set D. sequenceNumber x \<notin> set (seqs E)
           \<longrightarrow> (\<forall>y\<in>set E. sequenceNumber y < sequenceNumber x)"
  shows "newest_first (merged D E)"
proof -
  have "newest_first (filter (\<lambda>x. sequenceNumber x \<notin> set (seqs E)) D @ E)"
    using assms by (simp add: newest_first_def sorted_wrt_append sorted_wrt_filter)
  then show ?thesis using assms(1) by (simp add: merged_filter newest_first_distinct)
qed

section \<open>The requests and their results\<close>

lemma cached_simps [simp]:
  "cached (s\<lparr>calls := c\<rparr>) rid = cached s rid"
  "cache s rid = None \<Longrightarrow> cached s rid = []"
  "cache s rid = Some a \<Longrightarrow> cached s rid = arrays s a"
  by (simp_all add: cached_def deref_def split: option.splits)

lemma cached_Cons: "cached s rid = x # xs \<Longrightarrow> \<exists>a. cache s rid = Some a \<and> arrays s a = x # xs"
  by (cases "cache s rid") simp_all

lemma fetchAll_run:
  "fetchAll api rid s =
     (case api (length (calls s)) (req_all rid) of
        Failed \<Rightarrow> (None, sent (req_all rid) s)
      | Succeeded h \<Rightarrow> (Some (fresh s), assign rid (fresh s) (answered (req_all rid) h s)))"
  by (simp add: fetchAll_def Report_GetHistory_def split: response.splits)

lemma get_empty:
  "cached s rid = [] \<Longrightarrow>
   get api rid s =
     (case api (length (calls s)) (req_all rid) of
        Failed \<Rightarrow> (Inr Pending, sent (req_all rid) s)
      | Succeeded h \<Rightarrow>
          (Inr (Resolved (Some (fresh s))), assign rid (fresh s) (answered (req_all rid) h s)))"
  by (simp add: get_def cached_def fetchAll_run split: response.splits)

lemma get_cached:
  assumes "cache s rid = Some prev" and "arrays s prev = x # xs" and "prev < fresh s"
  shows "get api rid s =
     (case api (length (calls s)) (req_after rid (sequenceNumber x)) of
        Failed \<Rightarrow> (Inr Pending, sent (req_after rid (sequenceNumber x)) s)
      | Succeeded D \<Rightarrow>
          (Inr (Resolved (Some prev)),
           put prev (merged D (x # xs))
             (put (fresh s) (rev D) (answered (req_after rid (sequenceNumber x)) D s))))"
proof (cases "api (length (calls s)) (req_after rid (sequenceNumber x))")
  case Failed
  with assms show ?thesis by (simp add: get_def deref_def Report_GetHistory_def)
next
  case (Succeeded D)
  let ?s1 = "answered (req_after rid (sequenceNumber x)) D s"
  have "cache ?s1 rid = Some prev" "prev \<noteq> fresh s" using assms by simp_all
  from mergeItems_apart [OF this] assms Succeeded show ?thesis
    by (simp add: get_def deref_def Report_GetHistory_def)
qed

lemma get_calls: "calls (snd (get api rid s)) = calls s @ [get_request s rid]"
proof (cases "cached s rid")
  case Nil
  then show ?thesis by (simp add: get_empty get_request_def split: response.splits)
next
  case (Cons x xs)
  then have "deref s (cache s rid) = x # xs" by (simp add: cached_def)
  with Cons show ?thesis
    by (auto simp: get_def get_request_def Report_GetHistory_def Let_def
        split: response.splits prod.splits sum.splits dest: mergeItems_calls)
qed


lemma get_public_state: "snd (get_public api rid s) = snd (get api rid s)"
  by (simp add: get_public_def split: prod.splits sum.splits deferred.splits)



lemma getFromCacheFirst_cases:
  obtains (cached) "cached s rid \<noteq> []" "getFromCacheFirst api rid s = (Resolved (cache s rid), s)"
  | (failed) "cached s rid = []"
      "getFromCacheFirst api rid s = (Pending, sent (req_all rid) s)"
  | (loaded) h s1 where "cached s rid = []"
      "api (length (calls s)) (req_all rid) = Succeeded h"
      "s1 = assign rid (fresh s) (answered (req_all rid) h s)"
      "getFromCacheFirst api rid s = (Resolved (cache s1 rid), s1)"
  by (cases "cached s rid = []"; cases "api (length (calls s)) (req_all rid)")
     (simp_all add: getFromCacheFirst_def cached_def fetchAll_run)

text \<open>What \<open>set\<close> does once \<open>getFromCacheFirst\<close> has resolved with the cached array.\<close>

lemma set_public_continue:
  assumes "getFromCacheFirst api rid s = (Resolved (cache s1 rid), s1)"
  shows "set_public api rid e s =
    (if sequenceNumber e \<in> set (seqs (cached s1 rid))
     then (Inr (Resolved (filterHiddenActions (cached s1 rid))), s1)
     else if sequenceNumber e - 1 \<in> set (seqs (cached s1 rid))
     then (case cache s1 rid of
             None \<Rightarrow> (Inl TypeError, s1)
           | Some a \<Rightarrow>
               (Inr (Resolved (filterHiddenActions (e # arrays s1 a))), put a (e # arrays s1 a) s1))
     else get_public api rid s1)"
  by (simp add: set_public_def get_public_def assms findWhere_None cached_def [symmetric]
      split: option.splits)





section \<open>The invariant\<close>

lemma contractD:
  "honours_contract api \<Longrightarrow> api n req = Succeeded h \<Longrightarrow>
   newest_first h \<and> (\<forall>off. offset req = Some off \<longrightarrow> (\<forall>x\<in>set h. off \<le> sequenceNumber x))"
  unfolding honours_contract_def by blast

lemma cache_invD:
  "cache_inv s \<Longrightarrow> cache s rid = Some a \<Longrightarrow> a < fresh s \<and> newest_first (arrays s a)"
  by (simp add: cache_inv_def)

lemma get_inv:
  assumes "cache_inv s" and "honours_contract api"
  shows "cache_inv (snd (get api rid s))"
proof (cases "cached s rid")
  case Nil
  show ?thesis
  proof (cases "api (length (calls s)) (req_all rid)")
    case Failed
    with Nil assms(1) show ?thesis by (simp add: get_empty cache_inv_def)
  next
    case (Succeeded h)
    then have "newest_first h" using contractD [OF assms(2)] by blast
    with Nil Succeeded assms(1) show ?thesis
      by (auto simp: get_empty cache_inv_def less_Suc_eq)
  qed
next
  case (Cons x xs)
  then obtain prev where prev: "cache s rid = Some prev" "arrays s prev = x # xs"
    using cached_Cons by blast
  with cache_invD [OF assms(1)] have E: "prev < fresh s" "newest_first (x # xs)"
    by fastforce+
  show ?thesis
  proof (cases "api (length (calls s)) (req_after rid (sequenceNumber x))")
    case Failed
    with prev E assms(1) show ?thesis by (simp add: get_cached cache_inv_def)
  next
    case (Succeeded D)
    from contractD [OF assms(2) Succeeded]
    have D: "newest_first D" "\<forall>d\<in>set D. sequenceNumber x \<le> sequenceNumber d" by simp_all
    have "sequenceNumber y < sequenceNumber d"
      if "d \<in> set D" "sequenceNumber d \<notin> set (seqs (x # xs))" "y \<in> set (x # xs)" for d y
      using that D(2) newest_first_head [OF E(2) that(3)] by force
    with D(1) E(2) have "newest_first (merged D (x # xs))" by (intro merged_sorted) blast+
    with prev E Succeeded assms(1) show ?thesis
      by (auto simp: get_cached cache_inv_def less_Suc_eq)
  qed
qed

lemma set_public_inv:
  assumes "cache_inv s" and "honours_contract api"
    and "in_order e (cached s rid)"
    and "\<forall>n h. api n (req_all rid) = Succeeded h \<longrightarrow> in_order e h"
  shows "cache_inv (snd (set_public api rid e s))"
proof -
  have continue: "cache_inv (snd (set_public api rid e s))"
    if "getFromCacheFirst api rid s = (Resolved (cache s1 rid), s1)"
      and "cache_inv s1" and "in_order e (cached s1 rid)" for s1
  proof -
    have "newest_first (e # arrays s1 a)"
      if "cache s1 rid = Some a" "sequenceNumber e \<notin> set (seqs (cached s1 rid))" for a
      using that \<open>cache_inv s1\<close> \<open>in_order e (cached s1 rid)\<close>
      by (auto simp: cache_inv_def in_order_def newest_first_def)
    then show ?thesis
      unfolding set_public_continue [OF that(1)]
      using \<open>cache_inv s1\<close> get_inv [OF \<open>cache_inv s1\<close> assms(2), of rid]
      by (auto simp: get_public_state cache_inv_def split: option.splits)
  qed
  show ?thesis
  proof (cases rule: getFromCacheFirst_cases [of s rid api])
    case cached
    with assms continue show ?thesis by simp
  next
    case failed
    with assms(1) show ?thesis by (simp add: set_public_def cache_inv_def)
  next
    case (loaded h s1)
    then have "newest_first h" "in_order e h" using contractD [OF assms(2)] assms(4) by blast+
    with loaded(3) assms(1) have "cache_inv s1" "in_order e (cached s1 rid)"
      by (auto simp: cache_inv_def less_Suc_eq)
    with continue loaded(4) show ?thesis by simp
  qed
qed

lemma api_log_honours: "newest_first log \<Longrightarrow> honours_contract (api_log log)"
  unfolding honours_contract_def api_log_def
  by (auto simp: newest_first_def sorted_wrt_filter split: option.splits)

section \<open>Properties\<close>

text \<open>
  C1, as the claim states it, fails: the merge does not sort. Entries 6, 7, 8 delivered
  oldest first into the cache [5, 4] leave the cache as [6, 7, 8, 5, 4]: line 123 reverses
  the batch to [8, 7, 6], and the reduce unshifts 8, then 7, then 6.
\<close>

theorem mergeItems_any_order_counterexample:
  "seqs (cached (snd (mergeItems 7 1 (store_with [item 5, item 4] [item 6, item 7, item 8]))) 7)
     = [6, 7, 8, 5, 4]"
  by (simp add: mergeItems_def store_with_def Let_def reducer_def findWhere_def
      item_def action_def cached_def deref_def)

text \<open>
  C1, amended. Merging a delta batch \<open>D\<close> into the existing cache \<open>E\<close> of a report (two
  different arrays) leaves in the cache exactly the sequence numbers of both, and no
  duplicate sequence number if \<open>E\<close> had none. If the sequence numbers of \<open>D\<close> are pairwise
  different, the cache becomes the entries of \<open>D\<close> not already present, in the order
  delivered, followed by \<open>E\<close>. The result is newest first when \<open>D\<close> is delivered newest
  first, \<open>E\<close> is newest first and the entries of \<open>D\<close> not already present are newer than
  every entry of \<open>E\<close>.
\<close>

theorem mergeItems_result:
  assumes "cache s rid = Some prev" and "prev \<noteq> d"
    and "arrays s d = D" and "arrays s prev = E"
    and "R = cached (snd (mergeItems rid d s)) rid"
  shows "set (seqs R) = set (seqs D) \<union> set (seqs E)
    \<and> (distinct (seqs E) \<longrightarrow> distinct (seqs R))
    \<and> (distinct (seqs D) \<longrightarrow> R = filter (\<lambda>x. sequenceNumber x \<notin> set (seqs E)) D @ E)
    \<and> (newest_first D \<and> newest_first E
         \<and> (\<forall>x\<in>set D. sequenceNumber x \<notin> set (seqs E)
               \<longrightarrow> (\<forall>y\<in>set E. sequenceNumber y < sequenceNumber x))
       \<longrightarrow> newest_first R)"
proof -
  have "R = merged D E" using assms by (simp add: mergeItems_apart)
  then show ?thesis
    using merged_seqs [of D E] merged_distinct [of E D] merged_filter [of D E]
      merged_sorted [of D E]
    by simp
qed

theorem mergeItems_result_witness:
  "cached (snd (mergeItems 7 1 (store_with [item 5, item 4] [item 8, item 7, item 6]))) 7
     = [item 8, item 7, item 6, item 5, item 4]"
  using mergeItems_result [of "store_with [item 5, item 4] [item 8, item 7, item 6]" 7 0 1
      "[item 8, item 7, item 6]" "[item 5, item 4]"
      "cached (snd (mergeItems 7 1 (store_with [item 5, item 4] [item 8, item 7, item 6]))) 7"]
  by (simp add: store_with_def item_def action_def)

text \<open>
  C2, as the claim states it, fails: a cache can exist and be empty (a full fetch that
  returned no entry leaves one); then \<open>_.isEmpty(cachedHistory)\<close> holds at line 144 and
  \<open>get\<close> calls \<open>fetchAll\<close>, which sends a request without an offset.
\<close>

theorem get_public_empty_cache_counterexample:
  "cache (store_of []) 7 = Some 0
   \<and> calls (snd (get_public (api_log []) 7 (store_of []))) = [req_all 7]"
  by (simp add: store_of_def get_public_def get_def fetchAll_def
      Report_GetHistory_def api_log_def deref_def)

text \<open>
  C2, amended. For every report whose cache is not empty, \<open>get\<close> sends exactly one
  request, whose offset is the sequence number of the first cached entry; so does \<open>set\<close>
  when the cache holds neither the number of the new entry nor its predecessor. When the
  cache is newest first, that offset is the newest cached sequence number.
\<close>

theorem incremental_fetch_offset:
  assumes "cached s rid = x # xs"
  shows "calls (snd (get_public api rid s)) = calls s @ [req_after rid (sequenceNumber x)]
    \<and> (sequenceNumber e \<notin> set (seqs (cached s rid))
        \<and> sequenceNumber e - 1 \<notin> set (seqs (cached s rid)) \<longrightarrow>
        calls (snd (set_public api rid e s)) = calls s @ [req_after rid (sequenceNumber x)])
    \<and> (newest_first (cached s rid) \<longrightarrow>
          (\<forall>y\<in>set (cached s rid). sequenceNumber y \<le> sequenceNumber x))"
proof -
  have get: "calls (snd (get_public api rid s)) = calls s @ [req_after rid (sequenceNumber x)]"
    using assms by (simp add: get_public_state get_calls get_request_def)
  have "getFromCacheFirst api rid s = (Resolved (cache s rid), s)"
    using assms by (simp add: getFromCacheFirst_def cached_def)
  from set_public_continue [OF this] get newest_first_head [of x xs] assms
  show ?thesis by auto
qed

theorem incremental_fetch_offset_witness:
  "calls (snd (get_public source 7 (store_of [item 5, item 4])))
     = [req_after 7 5]
   \<and> calls (snd (set_public source 7 (item 8)
                   (store_of [item 5, item 4])))
     = [req_after 7 5]"
  using incremental_fetch_offset [where s = "store_of [item 5, item 4]" and rid = 7
      and x = "item 5" and xs = "[item 4]" and e = "item 8"
      and api = source]
  by (simp add: store_of_def item_def action_def)

text \<open>
  C3. If the cache of a report holds an entry numbered \<open>n - 1\<close> and none numbered \<open>n\<close>,
  \<open>set\<close> of an entry numbered \<open>n\<close> sends no request (whatever the source would answer),
  puts the entry in front of the cached array in place, and resolves with the filtered
  cache.
\<close>

theorem set_public_fast_path:
  assumes "cache s rid = Some a"
    and "sequenceNumber e - 1 \<in> set (seqs (arrays s a))"
    and "sequenceNumber e \<notin> set (seqs (arrays s a))"
  shows "set_public api rid e s
      = (Inr (Resolved (filterHiddenActions (e # arrays s a))), put a (e # arrays s a) s)
    \<and> calls (snd (set_public api rid e s)) = calls s
    \<and> cached (snd (set_public api rid e s)) rid = e # cached s rid"
proof -
  have "getFromCacheFirst api rid s = (Resolved (cache s rid), s)"
    using assms(1,2) by (auto simp: getFromCacheFirst_def deref_def)
  from set_public_continue [OF this] assms show ?thesis by simp
qed

theorem set_public_fast_path_witness:
  "set_public api_down 7 (item 6) (store_of [item 5, item 4])
     = (Inr (Resolved [item 6, item 5, item 4]), store_of [item 6, item 5, item 4])"
  using set_public_fast_path [of "store_of [item 5, item 4]" 7 0 "item 6" api_down]
  by (simp add: store_of_def item_def action_def filterHiddenActions_def
      contains_def HIDDEN_ACTIONS_def startsWith_def)






text \<open>
  C6. For a report with no cache, \<open>get\<close> sends exactly one request, without an offset;
  when the source answers, the answer becomes the cache of the report as it is, and \<open>get\<close>
  resolves with the answer filtered.
\<close>

theorem get_public_full_fetch:
  assumes "cache s rid = None"
  shows "calls (snd (get_public api rid s)) = calls s @ [req_all rid]
    \<and> (\<forall>h. api (length (calls s)) (req_all rid) = Succeeded h \<longrightarrow>
          get_public api rid s
            = (Inr (Resolved (filterHiddenActions h)),
               assign rid (fresh s) (answered (req_all rid) h s))
          \<and> cached (snd (get_public api rid s)) rid = h)"
proof -
  have "calls (snd (get_public api rid s)) = calls s @ [req_all rid]"
    using assms by (simp add: get_public_state get_calls get_request_def)
  then show ?thesis using assms by (simp add: get_public_def get_empty deref_def)
qed

theorem get_public_full_fetch_witness:
  "cache new_store 7 = None
   \<and> fst (get_public (api_log [item 2, action 1 ''CCFOO'']) 7 new_store)
       = Inr (Resolved [item 2])
   \<and> cached (snd (get_public (api_log [item 2, action 1 ''CCFOO'']) 7 new_store)) 7
       = [item 2, action 1 ''CCFOO'']
   \<and> calls (snd (get_public (api_log [item 2, action 1 ''CCFOO'']) 7 new_store)) = [req_all 7]"
  using get_public_full_fetch [of new_store 7 "api_log [item 2, action 1 ''CCFOO'']"]
  by (simp add: new_store_def api_log_def filterHiddenActions_def contains_def
      HIDDEN_ACTIONS_def startsWith_def item_def action_def)

text \<open>
  C7, as the claim states it, fails: with no cache for the report (here report 8) and a
  non-empty batch, \<open>mergeItems\<close> raises a TypeError, and the report still has no cache
  afterwards, not an empty one.
\<close>

theorem mergeItems_no_cache_counterexample:
  "fst (mergeItems 8 1 (store_with [] [item 6])) = Inl TypeError
   \<and> cache (snd (mergeItems 8 1 (store_with [] [item 6]))) 8 = None"
  by (simp add: mergeItems_def store_with_def Let_def)

text \<open>
  C7, amended. For every report with no cache and every non-empty delta batch,
  \<open>mergeItems\<close> raises a TypeError; by then the batch has been reversed, nothing else has
  changed, and the report still has no cache.
\<close>

theorem mergeItems_no_cache_raises:
  assumes "cache s rid = None" and "arrays s d \<noteq> []"
  shows "mergeItems rid d s = (Inl TypeError, put d (rev (arrays s d)) s)
    \<and> cache (snd (mergeItems rid d s)) rid = None"
  using assms by (simp add: mergeItems_undefined)

theorem mergeItems_no_cache_raises_witness:
  "fst (mergeItems 8 1 (store_with [] [item 6, item 7])) = Inl TypeError
   \<and> arrays (snd (mergeItems 8 1 (store_with [] [item 6, item 7]))) 1 = [item 7, item 6]"
  using mergeItems_no_cache_raises [of "store_with [] [item 6, item 7]" 8 1]
  by (simp add: store_with_def)




text \<open>
  C9, as the claim states it, fails: \<open>set\<close> puts the new entry in front whenever its
  predecessor is cached (lines 77 to 81), also when a newer entry is cached already. The
  sorted cache [5, 3] becomes [4, 5, 3]; no request is sent, so the source has no part in
  it.
\<close>

theorem set_public_unsorted_counterexample:
  "cache_inv (store_of [item 5, item 3])
   \<and> seqs (cached (snd (set_public api_down 7 (item 4) (store_of [item 5, item 3]))) 7) = [4, 5, 3]"
  by (simp add: cache_inv_def newest_first_def store_of_def set_public_def
      getFromCacheFirst_def findWhere_def deref_def cached_def item_def action_def)

text \<open>
  C9, amended. Let every answer of the source be newest first and hold no entry older than
  the offset requested. Then \<open>get\<close> keeps the cache invariant: every cached history stays
  newest first (strictly decreasing sequence numbers, hence no duplicates). So does
  \<open>set\<close>, provided the new entry is already held by its number, or is newer than every
  entry, in the history of the report: the cached one, and any full history the source
  would answer with.
\<close>

theorem public_operations_keep_cache_sorted:
  assumes "cache_inv s" and "honours_contract api"
  shows "cache_inv (snd (get_public api rid s))
    \<and> (\<forall>r. newest_first (cached (snd (get_public api rid s)) r))
    \<and> (in_order e (cached s rid)
        \<and> (\<forall>n h. api n (req_all rid) = Succeeded h \<longrightarrow> in_order e h)
       \<longrightarrow> cache_inv (snd (set_public api rid e s))
           \<and> (\<forall>r. newest_first (cached (snd (set_public api rid e s)) r)))"
proof -
  have "newest_first (cached s' r)" if "cache_inv s'" for s' r
    using that by (cases "cache s' r") (simp_all add: cache_inv_def newest_first_def)
  with get_inv [OF assms, of rid] set_public_inv [OF assms, of e rid] show ?thesis
    by (simp add: get_public_state)
qed

theorem public_operations_keep_cache_sorted_witness:
  "cache_inv (store_of [item 5, item 4])
   \<and> honours_contract source
   \<and> in_order (item 6) (cached (store_of [item 5, item 4]) 7)
   \<and> cache_inv (snd (get_public source 7
          (store_of [item 5, item 4])))
   \<and> cache_inv (snd (set_public source 7 (item 6)
          (store_of [item 5, item 4])))"
proof -
  let ?s = "store_of [item 5, item 4]"
  let ?api = source
  have inv: "cache_inv ?s"
    by (simp add: cache_inv_def store_of_def newest_first_def item_def action_def)
  have contract: "honours_contract ?api"
    unfolding source_def by (rule api_log_honours) (simp add: newest_first_def item_def action_def)
  have ord: "in_order (item 6) (cached ?s 7)"
    "\<forall>n h. ?api n (req_all 7) = Succeeded h \<longrightarrow> in_order (item 6) h"
    by (simp_all add: in_order_def store_of_def source_def api_log_def item_def action_def)
  from public_operations_keep_cache_sorted [OF inv contract, of 7 "item 6"] inv contract ord
  show ?thesis by blast
qed

text \<open>
  C10. For every non-empty delta batch passed to \<open>mergeItems\<close>, the array the caller passed
  is reversed in place: afterwards it holds its former contents in the opposite order. This
  holds whether or not the report has a cache, and also when the batch is the cached array
  itself.
\<close>

theorem mergeItems_reverses_delta:
  "arrays s d \<noteq> [] \<Longrightarrow> arrays (snd (mergeItems rid d s)) d = rev (arrays s d)"
proof (cases "cache s rid")
  case None
  assume "arrays s d \<noteq> []"
  with None show ?thesis by (simp add: mergeItems_undefined)
next
  case (Some prev)
  assume "arrays s d \<noteq> []"
  with Some show ?thesis
    by (cases "prev = d") (simp_all add: mergeItems_alias mergeItems_apart)
qed

theorem mergeItems_reverses_delta_witness:
  "arrays (snd (mergeItems 7 1 (store_with [item 5, item 4] [item 6, item 7, item 8]))) 1
     = [item 8, item 7, item 6]"
  using mergeItems_reverses_delta [of "store_with [item 5, item 4] [item 6, item 7, item 8]" 1 7]
  by (simp add: store_with_def)

end
